theory Spec2Isabelle
  imports Main
begin

section \<open>Strings as the route handler sees them\<close>

text \<open>
  The table extraction of \<^verbatim>\<open>src/app/api/upload/route.ts\<close> works on JavaScript
  strings. A string is modelled as a \<^typ>\<open>string\<close>, each \<^typ>\<open>char\<close> standing for one
  code unit below 256. Among those code units the ones matched by the regular expression
  class \<^verbatim>\<open>\s\<close> and removed by \<^verbatim>\<open>trim()\<close> are TAB, LF, VT, FF, CR, SPACE and
  the no-break space.
\<close>

definition is_ws :: "char \<Rightarrow> bool" where
  "is_ws c \<longleftrightarrow>
     c = CHR 0x09 \<or> c = CHR 0x0A \<or> c = CHR 0x0B \<or> c = CHR 0x0C \<or> c = CHR 0x0D \<or>
     c = CHR '' '' \<or> c = CHR 0xA0"

text \<open>\<^verbatim>\<open>s.trim()\<close>\<close>

definition trim :: "string \<Rightarrow> string" where
  "trim s = rev (dropWhile is_ws (rev (dropWhile is_ws s)))"

text \<open>\<^verbatim>\<open>s.startsWith(p)\<close> and \<^verbatim>\<open>s.includes(p)\<close>\<close>

fun starts_with :: "string \<Rightarrow> string \<Rightarrow> bool" where
  "starts_with s [] = True"
| "starts_with [] (p # ps) = False"
| "starts_with (x # xs) (p # ps) = (x = p \<and> starts_with xs ps)"

fun includes_str :: "string \<Rightarrow> string \<Rightarrow> bool" where
  "includes_str [] p = (p = [])"
| "includes_str (x # xs) p = (starts_with (x # xs) p \<or> includes_str xs p)"

text \<open>
  \<^verbatim>\<open>s.split(c)\<close> for a separator of one character: the empty string gives one empty
  token, and a separator at either end gives an empty token there.
\<close>

fun split_char :: "char \<Rightarrow> string \<Rightarrow> string list" where
  "split_char c [] = [[]]"
| "split_char c (x # xs) =
     (if x = c then [] # split_char c xs
      else (case split_char c xs of
              [] \<Rightarrow> [[x]]
            | t # ts \<Rightarrow> (x # t) # ts))"

text \<open>
  \<^verbatim>\<open>s.split(/\s+/)\<close> is \<open>split_runs 0 s\<close> and \<^verbatim>\<open>s.split(/\s{2,}/)\<close> is
  \<open>split_runs 1 s\<close>: scanning from the left, a maximal run of more than \<open>n\<close> white-space
  characters ends the current token and is skipped whole (the quantifier is greedy);
  a shorter run stays inside the token. The empty string gives one empty token, since
  neither expression matches the empty string.
\<close>

function split_runs :: "nat \<Rightarrow> string \<Rightarrow> string list" where
  "split_runs n [] = [[]]"
| "split_runs n (x # xs) =
     (if is_ws x \<and> n < length (takeWhile is_ws (x # xs))
      then [] # split_runs n (dropWhile is_ws xs)
      else (case split_runs n xs of
              [] \<Rightarrow> [[x]]
            | t # ts \<Rightarrow> (x # t) # ts))"
  by pat_completeness auto
termination
  by (relation "measure (\<lambda>(n, s). length s)")
     (auto simp: less_Suc_eq_le length_dropWhile_le)

text \<open>\<^verbatim>\<open>text.split('\n').filter(line => line.trim() !== '')\<close>\<close>

definition non_blank_lines :: "string \<Rightarrow> string list" where
  "non_blank_lines text = filter (\<lambda>line. trim line \<noteq> []) (split_char (CHR 0x0A) text)"

section \<open>Rows\<close>

text \<open>
  A row is a \<^verbatim>\<open>Record<string, string>\<close> that starts as the empty object literal:
  here the list of its own properties in the order of their creation. The assignment
  \<^verbatim>\<open>row[k] = v\<close> overwrites the value of an existing property in place and appends a
  new one otherwise; for the key \<^verbatim>\<open>__proto__\<close> it reaches the inherited setter, which
  ignores a string, so no property is created. The order in which the properties of the
  object are enumerated is a function of this list.
\<close>

type_synonym row = "(string \<times> string) list"

fun upsert :: "row \<Rightarrow> string \<Rightarrow> string \<Rightarrow> row" where
  "upsert [] k v = [(k, v)]"
| "upsert ((k', v') # r) k v = (if k' = k then (k, v) # r else (k', v') # upsert r k v)"

definition set_prop :: "row \<Rightarrow> string \<Rightarrow> string \<Rightarrow> row" where
  "set_prop r k v = (if k = ''__proto__'' then r else upsert r k v)"

text \<open>
  \<^verbatim>\<open>for (let j = 0; j < Math.min(headers.length, values.length); j++)
    row[headers[j]] = values[j];\<close>
\<close>

fun assign_cols :: "string list \<Rightarrow> string list \<Rightarrow> row \<Rightarrow> row" where
  "assign_cols (h # hs) (v # vs) r = assign_cols hs vs (set_prop r h v)"
| "assign_cols [] vs r = r"
| "assign_cols hs [] r = r"

section \<open>Text extracted from a PDF\<close>

subsection \<open>Approach 1: a header line found by its delimiter\<close>

datatype delimiter = Space | Comma | Tab

text \<open>The literal whose presence in the line lets a delimiter be tried on it.\<close>

fun marker :: "delimiter \<Rightarrow> string" where
  "marker Space = ''  ''"
| "marker Comma = '',''"
| "marker Tab = [CHR 0x09]"

fun split_by :: "delimiter \<Rightarrow> string \<Rightarrow> string list" where
  "split_by Space line = split_runs 1 line"
| "split_by Comma line = split_char (CHR '','') line"
| "split_by Tab line = split_char (CHR 0x09) line"

text \<open>\<^verbatim>\<open>line.split(...).map(h => h.trim()).filter(h => h !== '')\<close>\<close>

definition header_tokens :: "delimiter \<Rightarrow> string \<Rightarrow> string list" where
  "header_tokens d line = filter (\<lambda>h. h \<noteq> []) (map trim (split_by d line))"

text \<open>The loop variables \<^verbatim>\<open>bestHeaderLine\<close>, \<^verbatim>\<open>bestDelimiter\<close>, \<^verbatim>\<open>bestHeaderCount\<close>.\<close>

record best =
  bestHeaderLine :: nat
  bestDelimiter :: delimiter
  bestHeaderCount :: nat

text \<open>One of the three \<^verbatim>\<open>if (line.includes(...))\<close> blocks of the loop body.\<close>

definition try_delimiter :: "delimiter \<Rightarrow> nat \<Rightarrow> string \<Rightarrow> best \<Rightarrow> best" where
  "try_delimiter d i line b =
     (if includes_str line (marker d)
      then (if length (header_tokens d line) > bestHeaderCount b
            then \<lparr>bestHeaderLine = i, bestDelimiter = d,
                  bestHeaderCount = length (header_tokens d line)\<rparr>
            else b)
      else b)"

definition scan_line :: "nat \<Rightarrow> string \<Rightarrow> best \<Rightarrow> best" where
  "scan_line i line b = try_delimiter Tab i line (try_delimiter Comma i line (try_delimiter Space i line b))"

fun scan_lines :: "nat \<Rightarrow> string list \<Rightarrow> best \<Rightarrow> best" where
  "scan_lines i [] b = b"
| "scan_lines i (line # ls) b = scan_lines (Suc i) ls (scan_line i line b)"

definition find_header :: "string list \<Rightarrow> best" where
  "find_header lines =
     scan_lines 0 (take (min 5 (length lines)) lines)
       \<lparr>bestHeaderLine = 0, bestDelimiter = Space, bestHeaderCount = 0\<rparr>"

text \<open>The cells of a data line: only the space split drops the empty ones.\<close>

fun data_values :: "delimiter \<Rightarrow> string \<Rightarrow> string list" where
  "data_values Space line = filter (\<lambda>v. v \<noteq> []) (map trim (split_runs 1 line))"
| "data_values Comma line = map trim (split_char (CHR '','') line)"
| "data_values Tab line = map trim (split_char (CHR 0x09) line)"

text \<open>
  The test on \<^verbatim>\<open>values.length\<close>. \<^verbatim>\<open>Math.max(2, headers.length - 1)\<close> is 2 when there
  is no header, as the truncated subtraction gives.
\<close>

definition accepts :: "nat \<Rightarrow> nat \<Rightarrow> bool" where
  "accepts H T \<longleftrightarrow> T \<ge> max 2 (H - 1) \<and> T \<le> H + 1"

definition row_of_line :: "delimiter \<Rightarrow> string list \<Rightarrow> string \<Rightarrow> row option" where
  "row_of_line d headers dataLine =
     (let values = data_values d dataLine
      in if accepts (length headers) (length values)
         then Some (assign_cols headers values [])
         else None)"

text \<open>The loop over the lines after the header line, pushing the accepted rows.\<close>

fun delimited_rows :: "delimiter \<Rightarrow> string list \<Rightarrow> string list \<Rightarrow> row list" where
  "delimited_rows d headers [] = []"
| "delimited_rows d headers (dataLine # ls) =
     (case row_of_line d headers dataLine of
        Some r \<Rightarrow> r # delimited_rows d headers ls
      | None \<Rightarrow> delimited_rows d headers ls)"

text \<open>
  The first approach on the non-blank lines of the text. The header line is read at
  \<^verbatim>\<open>lines[bestHeaderLine]\<close>, an index inside the scanned window.
\<close>

definition header_of :: "string list \<Rightarrow> best \<Rightarrow> string list" where
  "header_of lines b = header_tokens (bestDelimiter b) (lines ! bestHeaderLine b)"

definition header_rows :: "string list \<Rightarrow> best \<Rightarrow> row list" where
  "header_rows lines b =
     delimited_rows (bestDelimiter b) (header_of lines b) (drop (Suc (bestHeaderLine b)) lines)"

subsection \<open>Approach 2: the most common number of words\<close>

text \<open>
  \<^verbatim>\<open>wordCountMap\<close> is a \<^verbatim>\<open>Map<number, number>\<close>, which keeps its keys in the order of
  their first insertion: an association list, updated in place.
\<close>

type_synonym count_map = "(nat \<times> nat) list"

fun bump :: "count_map \<Rightarrow> nat \<Rightarrow> count_map" where
  "bump [] k = [(k, 1)]"
| "bump ((k', c) # m) k = (if k' = k then (k, c + 1) # m else (k', c) # bump m k)"

definition word_count :: "string \<Rightarrow> nat" where
  "word_count line = length (split_runs 0 line)"

definition wordCountMap :: "string list \<Rightarrow> count_map" where
  "wordCountMap lines = fold (\<lambda>line m. bump m (word_count line)) lines []"

text \<open>
  The second \<^verbatim>\<open>forEach\<close>, over the entries of the map, with the pair
  (\<^verbatim>\<open>mostCommonWordCount\<close>, \<^verbatim>\<open>highestFrequency\<close>) it updates.
\<close>

fun pick :: "nat \<times> nat \<Rightarrow> nat \<times> nat \<Rightarrow> nat \<times> nat" where
  "pick (wordCount, frequency) (mostCommonWordCount, highestFrequency) =
     (if frequency > highestFrequency \<and> wordCount > 1
      then (wordCount, frequency)
      else (mostCommonWordCount, highestFrequency))"

definition most_common :: "count_map \<Rightarrow> nat \<times> nat" where
  "most_common m = fold pick m (0, 0)"

text \<open>The decimal numeral of a number, as the template literal prints it.\<close>

definition digit_char :: "nat \<Rightarrow> char" where
  "digit_char d = ''0123456789'' ! d"

function string_of_nat :: "nat \<Rightarrow> string" where
  "string_of_nat n =
     (if n < 10 then [digit_char n]
      else string_of_nat (n div 10) @ [digit_char (n mod 10)])"
  by pat_completeness auto
termination
  by (relation "measure id") auto

declare string_of_nat.simps [simp del]

text \<open>\<^verbatim>\<open>Array.from({ length: mostCommonWordCount }, (_, i) => `Column${i+1}`)\<close>\<close>

definition genericHeaders :: "nat \<Rightarrow> string list" where
  "genericHeaders n = map (\<lambda>i. ''Column'' @ string_of_nat (i + 1)) [0..<n]"

text \<open>
  The third \<^verbatim>\<open>forEach\<close>: a line with exactly \<open>n\<close> words gives a row, word \<open>index\<close>
  under \<^verbatim>\<open>genericHeaders[index]\<close>; the guard keeps every index inside the headers.
\<close>

fun pattern_rows :: "nat \<Rightarrow> string list \<Rightarrow> row list" where
  "pattern_rows n [] = []"
| "pattern_rows n (line # ls) =
     (if length (split_runs 0 line) = n
      then assign_cols (genericHeaders n) (split_runs 0 line) [] # pattern_rows n ls
      else pattern_rows n ls)"

definition pattern_table :: "string list \<Rightarrow> row list" where
  "pattern_table lines =
     (case most_common (wordCountMap lines) of
        (mostCommonWordCount, highestFrequency) \<Rightarrow>
          if highestFrequency \<ge> 3 \<and> mostCommonWordCount \<ge> 2
          then pattern_rows mostCommonWordCount lines
          else [])"

subsection \<open>The PDF branch\<close>

text \<open>
  The rows of the first approach are returned when there are any; otherwise those of the
  second; otherwise the empty list, as for a text of fewer than two lines.
\<close>

definition pdf_table :: "string list \<Rightarrow> row list" where
  "pdf_table lines =
     (if length lines > 1
      then (let b = find_header lines
            in if bestHeaderCount b \<ge> 2 \<and> header_rows lines b \<noteq> []
               then header_rows lines b
               else pattern_table lines)
      else [])"

section \<open>Plain text and TSV files\<close>

text \<open>The variable \<^verbatim>\<open>delimiter: string | RegExp\<close>; the only expression is \<^verbatim>\<open>/\s+/\<close>.\<close>

datatype text_delimiter = Literal char | Whitespace

definition detect_delimiter :: "string \<Rightarrow> text_delimiter" where
  "detect_delimiter firstLine =
     (if includes_str firstLine [CHR 0x09] then Literal (CHR 0x09)
      else if includes_str firstLine '','' then Literal (CHR '','')
      else if includes_str firstLine '';'' then Literal (CHR '';'')
      else Whitespace)"

text \<open>
  \<^verbatim>\<open>typeof delimiter === 'string'
    ? line.split(delimiter).map(h => h.trim())
    : line.split(delimiter).filter(h => h.trim() !== '')\<close>
\<close>

fun split_text :: "text_delimiter \<Rightarrow> string \<Rightarrow> string list" where
  "split_text (Literal c) line = map trim (split_char c line)"
| "split_text Whitespace line = filter (\<lambda>h. trim h \<noteq> []) (split_runs 0 line)"

text \<open>
  The loop over the lines after the first. Inside the guard \<^verbatim>\<open>values[index]\<close> exists
  for every header.
\<close>

fun text_rows :: "text_delimiter \<Rightarrow> string list \<Rightarrow> string list \<Rightarrow> row list" where
  "text_rows d headers [] = []"
| "text_rows d headers (line # ls) =
     (if length (split_text d line) = length headers
      then assign_cols headers (split_text d line) [] # text_rows d headers ls
      else text_rows d headers ls)"

definition text_headers :: "string list \<Rightarrow> string list" where
  "text_headers lines = split_text (detect_delimiter (hd lines)) (hd lines)"

definition text_table :: "string list \<Rightarrow> row list" where
  "text_table lines =
     (if length lines > 1
      then text_rows (detect_delimiter (hd lines)) (text_headers lines) (tl lines)
      else [])"

section \<open>The dispatch on the MIME type\<close>

definition supportedFormats :: "string list" where
  "supportedFormats =
     [''application/vnd.ms-excel'',
      ''application/vnd.openxmlformats-officedocument.spreadsheetml.sheet'',
      ''application/vnd.ms-excel.sheet.macroEnabled.12'',
      ''application/vnd.ms-excel.sheet.binary.macroEnabled.12'',
      ''text/csv'',
      ''text/comma-separated-values'',
      ''text/tab-separated-values'',
      ''application/pdf'',
      ''application/msword'',
      ''application/vnd.openxmlformats-officedocument.wordprocessingml.document'',
      ''text/plain'']"

definition isSupportedTableFormat :: "string \<Rightarrow> bool" where
  "isSupportedTableFormat mimeType = list_ex (\<lambda>format. includes_str mimeType format) supportedFormats"

text \<open>
  \<open>extractTableData\<close> reads the file through its collaborators, each of which may throw:
  \<open>library\<close> is the outcome of the spreadsheet or DOCX library on the file, \<open>content\<close>
  that of reading its text (through \<^verbatim>\<open>pdf-parse\<close> for a PDF). The whole body is inside
  \<^verbatim>\<open>try { ... } catch (error) { console.error(...); return []; }\<close>.
\<close>

definition extractTableData :: "string \<Rightarrow> 'e + row list \<Rightarrow> 'e + string \<Rightarrow> row list" where
  "extractTableData mimeType library content =
     (if \<not> isSupportedTableFormat mimeType then []
      else if includes_str mimeType ''spreadsheetml'' \<or> includes_str mimeType ''excel''
              \<or> includes_str mimeType ''xlsx'' \<or> includes_str mimeType ''xls''
      then (case library of Inl error \<Rightarrow> [] | Inr data \<Rightarrow> data)
      else if includes_str mimeType ''csv''
      then (case library of Inl error \<Rightarrow> [] | Inr data \<Rightarrow> data)
      else if includes_str mimeType ''pdf''
      then (case content of Inl error \<Rightarrow> [] | Inr text \<Rightarrow> pdf_table (non_blank_lines text))
      else if includes_str mimeType ''docx'' \<or> includes_str mimeType ''word''
      then (case library of Inl error \<Rightarrow> [] | Inr data \<Rightarrow> data)
      else if includes_str mimeType ''text/plain'' \<or> includes_str mimeType ''tsv''
      then (case content of Inl error \<Rightarrow> [] | Inr text \<Rightarrow> text_table (non_blank_lines text))
      else [])"

section \<open>Notions used to state the properties\<close>

text \<open>The place of a delimiter in the order in which the loop body tries the three.\<close>

fun rank :: "delimiter \<Rightarrow> nat" where
  "rank Space = 0"
| "rank Comma = 1"
| "rank Tab = 2"

text \<open>
  The keys of a row, in the order of their creation, after one more assignment and after
  the assignment of a list of names to a row that had the keys \<open>ks\<close>.
\<close>

definition add_key :: "string list \<Rightarrow> string \<Rightarrow> string list" where
  "add_key ks k = (if k = ''__proto__'' \<or> k \<in> set ks then ks else ks @ [k])"

definition keys_after :: "string list \<Rightarrow> string list" where
  "keys_after names = foldl add_key [] names"

text \<open>The number of lines with a given number of words.\<close>

definition frequency :: "string list \<Rightarrow> nat \<Rightarrow> nat" where
  "frequency lines n = length (filter (\<lambda>line. word_count line = n) lines)"

text \<open>The two variables of the second approach once the map has been traversed.\<close>

definition mostCommonWordCount :: "string list \<Rightarrow> nat" where
  "mostCommonWordCount lines = fst (most_common (wordCountMap lines))"

definition highestFrequency :: "string list \<Rightarrow> nat" where
  "highestFrequency lines = snd (most_common (wordCountMap lines))"

section \<open>Basic facts about the string operations\<close>

lemma includes_str_char: "includes_str s [c] \<longleftrightarrow> c \<in> set s"
  by (induction s) auto

lemma split_char_nonempty: "split_char c s \<noteq> []"
  by (induction s) (auto split: list.splits)

lemma length_split_char: "length (split_char c s) = Suc (count_list s c)"
  by (induction s) (auto split: list.splits simp: split_char_nonempty)

lemma trim_Nil [simp]: "trim [] = []"
  by (simp add: trim_def)

lemma trim_ends:
  assumes "trim s \<noteq> []"
  shows "\<not> is_ws (hd (trim s)) \<and> \<not> is_ws (last (trim s))"
proof -
  let ?t = "dropWhile is_ws s"
  let ?u = "dropWhile is_ws (rev ?t)"
  from assms have u: "?u \<noteq> []" by (simp add: trim_def)
  have t: "?t \<noteq> []"
  proof
    assume "?t = []"
    then have "?u = []" by (simp only: rev.simps dropWhile.simps)
    with u show False ..
  qed
  have "last (trim s) = hd ?u" using u by (simp add: trim_def last_rev)
  moreover have "\<not> is_ws (hd ?u)" using u by (rule hd_dropWhile)
  moreover have "hd (trim s) = last ?u" using u by (simp add: trim_def hd_rev)
  moreover have "last ?u = last (rev ?t)" using u
    by (metis append_Nil2 last_appendR takeWhile_dropWhile_id)
  moreover have "last (rev ?t) = hd ?t" using t by (simp add: last_rev)
  moreover have "\<not> is_ws (hd ?t)" using t by (rule hd_dropWhile)
  ultimately show ?thesis by simp
qed

lemma in_set_drop_nth:
  "x \<in> set (drop n xs) \<longleftrightarrow> (\<exists>i. n \<le> i \<and> i < length xs \<and> x = xs ! i)"
proof
  assume "x \<in> set (drop n xs)"
  then obtain j where j: "j < length (drop n xs)" "x = drop n xs ! j"
    by (auto simp: in_set_conv_nth)
  then have "n \<le> n + j \<and> n + j < length xs \<and> x = xs ! (n + j)"
    by auto
  then show "\<exists>i. n \<le> i \<and> i < length xs \<and> x = xs ! i"
    by blast
next
  assume "\<exists>i. n \<le> i \<and> i < length xs \<and> x = xs ! i"
  then obtain i where i: "n \<le> i" "i < length xs" "x = xs ! i"
    by blast
  then have "i - n < length (drop n xs)" "drop n xs ! (i - n) = x"
    by auto
  then show "x \<in> set (drop n xs)"
    by (metis nth_mem)
qed

lemma ex_in_drop:
  "(\<exists>x \<in> set (drop n xs). P x) \<longleftrightarrow> (\<exists>i. n \<le> i \<and> i < length xs \<and> P (xs ! i))"
  unfolding Bex_def in_set_drop_nth by blast


section \<open>The branches of the dispatch\<close>


lemma extractTableData_plain:
  "extractTableData ''text/plain'' library content =
     (case content of Inl error \<Rightarrow> [] | Inr text \<Rightarrow> text_table (non_blank_lines text))"
  by (simp add: extractTableData_def isSupportedTableFormat_def supportedFormats_def)






section \<open>The strict extractor for plain text\<close>

lemma text_rows_map_filter:
  "text_rows d headers ls =
     map (\<lambda>l. assign_cols headers (split_text d l) [])
       (filter (\<lambda>l. length (split_text d l) = length headers) ls)"
  by (induction ls) auto

lemma text_table_eq:
  "text_table lines =
     (if 1 < length lines
      then map (\<lambda>l. assign_cols (text_headers lines) (split_text (detect_delimiter (hd lines)) l) [])
             (filter (\<lambda>l. length (split_text (detect_delimiter (hd lines)) l)
                           = length (text_headers lines)) (tl lines))
      else [])"
  by (simp add: text_table_def text_rows_map_filter)

lemma text_table_member:
  "r \<in> set (text_table lines) \<longleftrightarrow>
     (\<exists>i. 0 < i \<and> i < length lines
          \<and> length (split_text (detect_delimiter (hd lines)) (lines ! i))
              = length (text_headers lines)
          \<and> r = assign_cols (text_headers lines)
                  (split_text (detect_delimiter (hd lines)) (lines ! i)) [])"
proof (cases "1 < length lines")
  case True
  have "tl lines = drop 1 lines"
    by (simp add: drop_Suc)
  then show ?thesis
    using True ex_in_drop [of 1 lines "\<lambda>l. length (split_text (detect_delimiter (hd lines)) l)
              = length (text_headers lines)
          \<and> r = assign_cols (text_headers lines)
                  (split_text (detect_delimiter (hd lines)) l) []"]
    by (auto simp: text_table_eq Suc_le_eq)
next
  case False
  then have "\<not> (\<exists>i. 0 < i \<and> i < length lines)"
    by auto
  with False show ?thesis
    by (auto simp: text_table_eq)
qed

text \<open>
  C7. The delimiter of the strict extractor is a function of the first line alone: a tab
  if the line has one, else a comma if it has one, else a semicolon if it has one, else
  runs of white space. With more than one line, the headers are the first line split by
  that delimiter, and the rows come from the later lines split by the same delimiter.
\<close>

theorem strict_delimiter_once:
  "detect_delimiter firstLine =
     (if CHR 0x09 \<in> set firstLine then Literal (CHR 0x09)
      else if CHR '','' \<in> set firstLine then Literal (CHR '','')
      else if CHR '';'' \<in> set firstLine then Literal (CHR '';'')
      else Whitespace)
   \<and> (length lines > 1 \<longrightarrow>
        text_headers lines = split_text (detect_delimiter (hd lines)) (hd lines)
        \<and> text_table lines =
            map (\<lambda>l. assign_cols (text_headers lines) (split_text (detect_delimiter (hd lines)) l) [])
              (filter (\<lambda>l. length (split_text (detect_delimiter (hd lines)) l)
                             = length (text_headers lines)) (tl lines)))"
  by (simp add: detect_delimiter_def includes_str_char text_table_def text_headers_def
      text_rows_map_filter)

theorem strict_delimiter_once_witness:
  "detect_delimiter ''a;b,c'' = Literal (CHR '','')
   \<and> text_table [''a;b,c'', ''1;2,3'', ''4,5;6'']
       = [[(''a;b'', ''1;2''), (''c'', ''3'')], [(''a;b'', ''4''), (''c'', ''5;6'')]]"
proof -
  have len: "length [''a;b,c'', ''1;2,3'', ''4,5;6''] > 1" by simp
  have d: "detect_delimiter ''a;b,c'' = Literal (CHR '','')"
    using strict_delimiter_once [of "''a;b,c''" "[]"] by simp
  have "text_table [''a;b,c'', ''1;2,3'', ''4,5;6''] =
     map (\<lambda>l. assign_cols (text_headers [''a;b,c'', ''1;2,3'', ''4,5;6''])
                (split_text (detect_delimiter (hd [''a;b,c'', ''1;2,3'', ''4,5;6''])) l) [])
              (filter (\<lambda>l. length (split_text (detect_delimiter (hd [''a;b,c'', ''1;2,3'', ''4,5;6''])) l)
                             = length (text_headers [''a;b,c'', ''1;2,3'', ''4,5;6'']))
                 (tl [''a;b,c'', ''1;2,3'', ''4,5;6'']))"
    using strict_delimiter_once [of "''a;b,c''" "[''a;b,c'', ''1;2,3'', ''4,5;6'']"] len by blast
  also have "\<dots> = [[(''a;b'', ''1;2''), (''c'', ''3'')], [(''a;b'', ''4''), (''c'', ''5;6'')]]"
    by (simp add: d text_headers_def trim_def is_ws_def set_prop_def)
  finally show ?thesis using d by simp
qed

text \<open>
  C8. The strict extractor, \<open>text_table\<close>, returns for a text of more than one line
  the rows of exactly those lines after the first whose number of tokens equals the
  number of headers, in order, and no row otherwise: a row is in the result if and only
  if it is the row of a line at an index from 1 on with as many tokens as there are
  headers. The same holds of its loop \<open>text_rows\<close> for any headers, and the branch for
  \<^verbatim>\<open>text/plain\<close> returns the result of \<open>text_table\<close> on the non-blank lines. For the text
  \<^verbatim>\<open>a,b,c\n1,2\n3,4,5,6\<close> the headers are \<^verbatim>\<open>a\<close>, \<^verbatim>\<open>b\<close>, \<^verbatim>\<open>c\<close> and both data lines
  are dropped.
\<close>

theorem strict_rows_exact_count:
  "text_rows d headers ls =
     map (\<lambda>l. assign_cols headers (split_text d l) [])
       (filter (\<lambda>l. length (split_text d l) = length headers) ls)
   \<and> (text_rows d headers [line] \<noteq> []) = (length (split_text d line) = length headers)
   \<and> text_headers (non_blank_lines (''a,b,c'' @ [CHR 0x0A] @ ''1,2'' @ [CHR 0x0A] @ ''3,4,5,6''))
       = [''a'', ''b'', ''c'']
   \<and> text_table (non_blank_lines (''a,b,c'' @ [CHR 0x0A] @ ''1,2'' @ [CHR 0x0A] @ ''3,4,5,6'')) = []
   \<and> text_table lines =
       (if 1 < length lines
        then map (\<lambda>l. assign_cols (text_headers lines)
                    (split_text (detect_delimiter (hd lines)) l) [])
               (filter (\<lambda>l. length (split_text (detect_delimiter (hd lines)) l)
                             = length (text_headers lines)) (tl lines))
        else [])
   \<and> (r \<in> set (text_table lines) \<longleftrightarrow>
        (\<exists>i. 0 < i \<and> i < length lines
             \<and> length (split_text (detect_delimiter (hd lines)) (lines ! i))
                 = length (text_headers lines)
             \<and> r = assign_cols (text_headers lines)
                     (split_text (detect_delimiter (hd lines)) (lines ! i)) []))
   \<and> extractTableData ''text/plain'' library (Inr text) = text_table (non_blank_lines text)"
proof -
  have "text_headers (non_blank_lines (''a,b,c'' @ [CHR 0x0A] @ ''1,2'' @ [CHR 0x0A] @ ''3,4,5,6''))
       = [''a'', ''b'', ''c'']"
    by code_simp
  moreover
  have "text_table (non_blank_lines (''a,b,c'' @ [CHR 0x0A] @ ''1,2'' @ [CHR 0x0A] @ ''3,4,5,6'')) = []"
    by code_simp
  moreover
  have "extractTableData ''text/plain'' library (Inr text) = text_table (non_blank_lines text)"
    by (simp add: extractTableData_plain)
  ultimately show ?thesis
    using text_table_eq [of lines] text_table_member [of r lines]
    by (simp add: text_rows_map_filter)
qed

theorem strict_rows_exact_count_witness:
  "text_rows (Literal (CHR '','')) [''A'', ''B'', ''C''] [''1,2,3'', ''4,5'', ''6,7,8,9'']
     = [[(''A'', ''1''), (''B'', ''2''), (''C'', ''3'')]]
   \<and> text_table [''A,B,C'', ''1,2,3'', ''4,5'', ''6,7,8,9'', ''x,y,z'']
       = [[(''A'', ''1''), (''B'', ''2''), (''C'', ''3'')],
          [(''A'', ''x''), (''B'', ''y''), (''C'', ''z'')]]
   \<and> [(''A'', ''x''), (''B'', ''y''), (''C'', ''z'')]
       \<in> set (text_table [''A,B,C'', ''1,2,3'', ''4,5'', ''6,7,8,9'', ''x,y,z''])
   \<and> extractTableData ''text/plain'' (Inr [])
        (Inr (''A,B,C'' @ [CHR 0x0A] @ ''1,2,3'' @ [CHR 0x0A] @ ''4,5'') :: string + string)
       = [[(''A'', ''1''), (''B'', ''2''), (''C'', ''3'')]]"
proof -
  let ?L = "[''A,B,C'', ''1,2,3'', ''4,5'', ''6,7,8,9'', ''x,y,z'']"
  let ?t = "''A,B,C'' @ [CHR 0x0A] @ ''1,2,3'' @ [CHR 0x0A] @ ''4,5''"
  let ?r = "[(''A'', ''x''), (''B'', ''y''), (''C'', ''z'')]"
  note t = strict_rows_exact_count [of "Literal (CHR '','')" "[''A'', ''B'', ''C'']"
      "[''1,2,3'', ''4,5'', ''6,7,8,9'']" "[]" ?L ?r "Inr [] :: string + row list" ?t]
  have "text_rows (Literal (CHR '','')) [''A'', ''B'', ''C''] [''1,2,3'', ''4,5'', ''6,7,8,9'']
     = map (\<lambda>l. assign_cols [''A'', ''B'', ''C''] (split_text (Literal (CHR '','')) l) [])
         (filter (\<lambda>l. length (split_text (Literal (CHR '','')) l) = length [''A'', ''B'', ''C''])
            [''1,2,3'', ''4,5'', ''6,7,8,9''])"
    using t by (rule conjunct1)
  also have "\<dots> = [[(''A'', ''1''), (''B'', ''2''), (''C'', ''3'')]]"
    by (simp add: trim_def is_ws_def set_prop_def)
  finally have a: "text_rows (Literal (CHR '','')) [''A'', ''B'', ''C''] [''1,2,3'', ''4,5'', ''6,7,8,9'']
     = [[(''A'', ''1''), (''B'', ''2''), (''C'', ''3'')]]" .
  have d: "detect_delimiter (hd ?L) = Literal (CHR '','')" by code_simp
  have h: "text_headers ?L = [''A'', ''B'', ''C'']" by code_simp
  have "text_table ?L =
       (if 1 < length ?L
        then map (\<lambda>l. assign_cols (text_headers ?L)
                    (split_text (detect_delimiter (hd ?L)) l) [])
               (filter (\<lambda>l. length (split_text (detect_delimiter (hd ?L)) l)
                             = length (text_headers ?L)) (tl ?L))
        else [])"
    using t [THEN conjunct2, THEN conjunct2, THEN conjunct2, THEN conjunct2, THEN conjunct1] .
  also have "\<dots> = [[(''A'', ''1''), (''B'', ''2''), (''C'', ''3'')],
          [(''A'', ''x''), (''B'', ''y''), (''C'', ''z'')]]"
    unfolding d h by (simp add: trim_def is_ws_def set_prop_def)
  finally have b: "text_table ?L = [[(''A'', ''1''), (''B'', ''2''), (''C'', ''3'')],
          [(''A'', ''x''), (''B'', ''y''), (''C'', ''z'')]]" .
  have i: "(0::nat) < 4" "(4::nat) < length ?L"
    by simp_all
  have n: "length (split_text (detect_delimiter (hd ?L)) (?L ! 4)) = length (text_headers ?L)"
    by code_simp
  have q: "?r = assign_cols (text_headers ?L) (split_text (detect_delimiter (hd ?L)) (?L ! 4)) []"
    by code_simp
  have c: "?r \<in> set (text_table ?L)"
    using t [THEN conjunct2, THEN conjunct2, THEN conjunct2, THEN conjunct2, THEN conjunct2,
        THEN conjunct1] i n q
    by blast
  have "extractTableData ''text/plain'' (Inr []) (Inr ?t :: string + string)
      = text_table (non_blank_lines ?t)"
    using t [THEN conjunct2, THEN conjunct2, THEN conjunct2, THEN conjunct2, THEN conjunct2,
        THEN conjunct2] .
  also have "\<dots> = [[(''A'', ''1''), (''B'', ''2''), (''C'', ''3'')]]"
    by code_simp
  finally show ?thesis
    using a b c by simp
qed

section \<open>Faults of the collaborators\<close>




section \<open>The cells of a data line in PDF text\<close>

text \<open>
  C4, as the code has it. On a data line the split on runs of two or more white-space
  characters is the header rule itself and leaves no empty cell. The comma and the tab
  split keep every field, empty or not: one cell more than the line has separators. The
  header rule is the data rule followed by the removal of the empty cells, and every
  cell is trimmed: a non-empty cell neither starts nor ends with white space.
\<close>

theorem data_split_rules:
  "data_values Space l = header_tokens Space l
   \<and> [] \<notin> set (data_values Space l)
   \<and> length (data_values Comma l) = Suc (count_list l (CHR '',''))
   \<and> length (data_values Tab l) = Suc (count_list l (CHR 0x09))
   \<and> header_tokens d l = filter (\<lambda>v. v \<noteq> []) (data_values d l)
   \<and> (\<forall>v \<in> set (data_values d l). v \<noteq> [] \<longrightarrow> \<not> is_ws (hd v) \<and> \<not> is_ws (last v))"
proof -
  have "\<forall>v \<in> set (data_values d l). v \<noteq> [] \<longrightarrow> \<not> is_ws (hd v) \<and> \<not> is_ws (last v)"
    by (cases d) (auto dest: trim_ends)
  moreover have "header_tokens d l = filter (\<lambda>v. v \<noteq> []) (data_values d l)"
    by (cases d) (simp_all add: header_tokens_def)
  ultimately show ?thesis
    by (simp add: header_tokens_def length_split_char)
qed

theorem data_split_rules_witness:
  "data_values Space ''x  y     z'' = [''x'', ''y'', ''z'']
   \<and> length (data_values Comma ''1,,3'') = 3
   \<and> length (data_values Tab (''1'' @ [CHR 0x09, CHR 0x09])) = 3
   \<and> header_tokens Comma '' 1 ,, 3'' = [''1'', ''3'']
   \<and> \<not> is_ws (hd ''1'') \<and> \<not> is_ws (last ''1'')"
proof -
  have "data_values Space ''x  y     z'' = header_tokens Space ''x  y     z''"
    using data_split_rules [of "''x  y     z''" Space] by (rule conjunct1)
  moreover have "header_tokens Space ''x  y     z'' = [''x'', ''y'', ''z'']"
    by code_simp
  moreover have "length (data_values Comma ''1,,3'') = Suc (count_list ''1,,3'' (CHR '',''))"
    using data_split_rules [of "''1,,3''" Comma] by blast
  moreover have "length (data_values Tab (''1'' @ [CHR 0x09, CHR 0x09]))
      = Suc (count_list (''1'' @ [CHR 0x09, CHR 0x09]) (CHR 0x09))"
    using data_split_rules [of "''1'' @ [CHR 0x09, CHR 0x09]" Tab] by blast
  moreover have "header_tokens Comma '' 1 ,, 3'' = filter (\<lambda>v. v \<noteq> []) (data_values Comma '' 1 ,, 3'')"
    using data_split_rules [of "'' 1 ,, 3''" Comma] by blast
  moreover have "filter (\<lambda>v. v \<noteq> []) (data_values Comma '' 1 ,, 3'') = [''1'', ''3'']"
    by code_simp
  moreover have "\<not> is_ws (hd ''1'') \<and> \<not> is_ws (last ''1'')"
  proof -
    have "''1'' \<in> set (data_values Comma '' 1 ,, 3'')" by code_simp
    moreover have "''1'' \<noteq> []" by simp
    ultimately show ?thesis
      using data_split_rules [of "'' 1 ,, 3''" Comma] by blast
  qed
  ultimately show ?thesis
    by simp
qed

text \<open>
  C4, as the specification states it, fails for the comma: the data line \<^verbatim>\<open>1,,3\<close> keeps
  its empty middle cell, where the header rule would drop it, so under the header
  \<^verbatim>\<open>a,b,c\<close> the value \<^verbatim>\<open>3\<close> stays in column \<^verbatim>\<open>c\<close>.
\<close>

theorem comma_keeps_empty_counterexample:
  "data_values Comma ''1,,3'' = [''1'', [], ''3'']
   \<and> header_tokens Comma ''1,,3'' = [''1'', ''3'']
   \<and> pdf_table [''a,b,c'', ''1,,3''] = [[(''a'', ''1''), (''b'', []), (''c'', ''3'')]]"
  by code_simp

section \<open>Rows and their keys\<close>

lemma map_fst_upsert:
  "map fst (upsert r k v) = (if k \<in> set (map fst r) then map fst r else map fst r @ [k])"
  by (induction r) (force simp: image_iff)+





lemma delimited_rows_map_filter:
  "delimited_rows d headers ls = List.map_filter (row_of_line d headers) ls"
  by (induction ls) (auto simp: List.map_filter_simps split: option.splits)


section \<open>The choice of the header line\<close>

lemma try_delimiter_cases:
  "try_delimiter d i l b = b
   \<or> (try_delimiter d i l b
        = \<lparr>bestHeaderLine = i, bestDelimiter = d, bestHeaderCount = length (header_tokens d l)\<rparr>
      \<and> includes_str l (marker d) \<and> bestHeaderCount b < length (header_tokens d l))"
  by (simp add: try_delimiter_def)

lemma try_delimiter_bound:
  "includes_str l (marker d) \<Longrightarrow>
     length (header_tokens d l) \<le> bestHeaderCount (try_delimiter d i l b)"
  by (simp add: try_delimiter_def)

lemma try_delimiter_mono:
  "bestHeaderCount b \<le> bestHeaderCount (try_delimiter d i l b)"
  by (simp add: try_delimiter_def)

lemma scan_line_mono: "bestHeaderCount b \<le> bestHeaderCount (scan_line i l b)"
  unfolding scan_line_def
  by (meson try_delimiter_mono order_trans)

lemma scan_line_bound:
  assumes "includes_str l (marker d)"
  shows "length (header_tokens d l) \<le> bestHeaderCount (scan_line i l b)"
proof (cases d)
  case Space
  have "length (header_tokens Space l) \<le> bestHeaderCount (try_delimiter Space i l b)"
    using assms Space by (simp add: try_delimiter_bound)
  also have "\<dots> \<le> bestHeaderCount (try_delimiter Comma i l (try_delimiter Space i l b))"
    by (rule try_delimiter_mono)
  also have "\<dots> \<le> bestHeaderCount (scan_line i l b)"
    unfolding scan_line_def by (rule try_delimiter_mono)
  finally show ?thesis using Space by simp
next
  case Comma
  have "length (header_tokens Comma l)
      \<le> bestHeaderCount (try_delimiter Comma i l (try_delimiter Space i l b))"
    using assms Comma by (simp add: try_delimiter_bound)
  also have "\<dots> \<le> bestHeaderCount (scan_line i l b)"
    unfolding scan_line_def by (rule try_delimiter_mono)
  finally show ?thesis using Comma by simp
next
  case Tab
  then show ?thesis
    using assms unfolding scan_line_def by (simp add: try_delimiter_bound)
qed

lemma scan_line_winner:
  "scan_line i l b = b
   \<or> (bestHeaderCount b < bestHeaderCount (scan_line i l b)
      \<and> bestHeaderLine (scan_line i l b) = i
      \<and> includes_str l (marker (bestDelimiter (scan_line i l b)))
      \<and> length (header_tokens (bestDelimiter (scan_line i l b)) l) = bestHeaderCount (scan_line i l b)
      \<and> (\<forall>d. includes_str l (marker d)
              \<and> length (header_tokens d l) = bestHeaderCount (scan_line i l b)
            \<longrightarrow> rank (bestDelimiter (scan_line i l b)) \<le> rank d))"
proof -
  define b1 where "b1 = try_delimiter Space i l b"
  define b2 where "b2 = try_delimiter Comma i l b1"
  define b3 where "b3 = try_delimiter Tab i l b2"
  have b3: "scan_line i l b = b3"
    by (simp add: scan_line_def b1_def b2_def b3_def)
  have m1: "bestHeaderCount b \<le> bestHeaderCount b1"
    unfolding b1_def by (rule try_delimiter_mono)
  have m2: "bestHeaderCount b1 \<le> bestHeaderCount b2"
    unfolding b2_def by (rule try_delimiter_mono)
  have s: "includes_str l (marker Space) \<Longrightarrow> length (header_tokens Space l) \<le> bestHeaderCount b1"
    unfolding b1_def by (rule try_delimiter_bound)
  have c: "includes_str l (marker Comma) \<Longrightarrow> length (header_tokens Comma l) \<le> bestHeaderCount b2"
    unfolding b2_def by (rule try_delimiter_bound)
  consider (tab) "b3 \<noteq> b2" | (comma) "b3 = b2" "b2 \<noteq> b1" | (space) "b3 = b2" "b2 = b1" "b1 \<noteq> b"
    | (none) "b3 = b"
    by blast
  then show ?thesis
  proof cases
    case tab
    then have w: "b3 = \<lparr>bestHeaderLine = i, bestDelimiter = Tab,
          bestHeaderCount = length (header_tokens Tab l)\<rparr>"
      and e: "includes_str l (marker Tab)"
      and g: "bestHeaderCount b2 < length (header_tokens Tab l)"
      using try_delimiter_cases [of Tab i l b2] by (auto simp: b3_def)
    have "rank Tab \<le> rank d"
      if "includes_str l (marker d)" "length (header_tokens d l) = length (header_tokens Tab l)" for d
      using that s c g m2 by (cases d) auto
    with w e g m1 m2 show ?thesis
      unfolding b3 by simp
  next
    case comma
    then have w: "b3 = \<lparr>bestHeaderLine = i, bestDelimiter = Comma,
          bestHeaderCount = length (header_tokens Comma l)\<rparr>"
      and e: "includes_str l (marker Comma)"
      and g: "bestHeaderCount b1 < length (header_tokens Comma l)"
      using try_delimiter_cases [of Comma i l b1] by (auto simp: b2_def)
    have "rank Comma \<le> rank d"
      if "includes_str l (marker d)" "length (header_tokens d l) = length (header_tokens Comma l)" for d
      using that s g by (cases d) auto
    with w e g m1 show ?thesis
      unfolding b3 by simp
  next
    case space
    then have w: "b3 = \<lparr>bestHeaderLine = i, bestDelimiter = Space,
          bestHeaderCount = length (header_tokens Space l)\<rparr>"
      and e: "includes_str l (marker Space)"
      and g: "bestHeaderCount b < length (header_tokens Space l)"
      using try_delimiter_cases [of Space i l b] by (auto simp: b1_def)
    with w e g show ?thesis
      unfolding b3 by simp
  next
    case none
    then show ?thesis
      unfolding b3 by simp
  qed
qed

lemma scan_lines_mono: "bestHeaderCount b \<le> bestHeaderCount (scan_lines i ls b)"
proof (induction ls arbitrary: i b)
  case Nil
  show ?case by simp
next
  case (Cons l ls)
  have "bestHeaderCount b \<le> bestHeaderCount (scan_line i l b)"
    by (rule scan_line_mono)
  also have "\<dots> \<le> bestHeaderCount (scan_lines (Suc i) ls (scan_line i l b))"
    by (rule Cons.IH)
  finally show ?case by simp
qed

lemma scan_lines_bound:
  "(j, l) \<in> set (enumerate i ls) \<Longrightarrow> includes_str l (marker d) \<Longrightarrow>
     length (header_tokens d l) \<le> bestHeaderCount (scan_lines i ls b)"
proof (induction ls arbitrary: i b)
  case Nil
  then show ?case by simp
next
  case (Cons x ls)
  from Cons.prems(1) consider "j = i" "l = x" | "(j, l) \<in> set (enumerate (Suc i) ls)"
    by auto
  then show ?case
  proof cases
    case 1
    have "length (header_tokens d l) \<le> bestHeaderCount (scan_line i x b)"
      using 1 Cons.prems(2) by (simp add: scan_line_bound)
    also have "\<dots> \<le> bestHeaderCount (scan_lines (Suc i) ls (scan_line i x b))"
      by (rule scan_lines_mono)
    finally show ?thesis by simp
  next
    case 2
    then show ?thesis
      using Cons.IH [of "Suc i" "scan_line i x b"] Cons.prems(2) by simp
  qed
qed

lemma scan_lines_winner:
  "scan_lines i ls b = b
   \<or> (bestHeaderCount b < bestHeaderCount (scan_lines i ls b)
      \<and> (\<exists>l. (bestHeaderLine (scan_lines i ls b), l) \<in> set (enumerate i ls)
            \<and> includes_str l (marker (bestDelimiter (scan_lines i ls b)))
            \<and> length (header_tokens (bestDelimiter (scan_lines i ls b)) l)
                = bestHeaderCount (scan_lines i ls b))
      \<and> (\<forall>j l d. (j, l) \<in> set (enumerate i ls) \<and> includes_str l (marker d)
              \<and> length (header_tokens d l) = bestHeaderCount (scan_lines i ls b)
            \<longrightarrow> bestHeaderLine (scan_lines i ls b) < j
                \<or> (bestHeaderLine (scan_lines i ls b) = j
                   \<and> rank (bestDelimiter (scan_lines i ls b)) \<le> rank d)))"
proof (induction ls arbitrary: i b)
  case Nil
  show ?case by simp
next
  case (Cons x ls)
  define b1 where "b1 = scan_line i x b"
  define b2 where "b2 = scan_lines (Suc i) ls b1"
  have res: "scan_lines i (x # ls) b = b2"
    by (simp add: b1_def b2_def)
  have en: "set (enumerate i (x # ls)) = insert (i, x) (set (enumerate (Suc i) ls))"
    by simp
  have later: "Suc i \<le> j" if "(j, l) \<in> set (enumerate (Suc i) ls)" for j l
    using that by (simp add: in_set_enumerate_eq)
  have m1: "bestHeaderCount b \<le> bestHeaderCount b1"
    unfolding b1_def by (rule scan_line_mono)
  have m2: "bestHeaderCount b1 \<le> bestHeaderCount b2"
    unfolding b2_def by (rule scan_lines_mono)
  have bx: "length (header_tokens d x) \<le> bestHeaderCount b1" if "includes_str x (marker d)" for d
    unfolding b1_def using that by (rule scan_line_bound)
  have ih: "b2 = b1
   \<or> (bestHeaderCount b1 < bestHeaderCount b2
      \<and> (\<exists>l. (bestHeaderLine b2, l) \<in> set (enumerate (Suc i) ls)
            \<and> includes_str l (marker (bestDelimiter b2))
            \<and> length (header_tokens (bestDelimiter b2) l) = bestHeaderCount b2)
      \<and> (\<forall>j l d. (j, l) \<in> set (enumerate (Suc i) ls) \<and> includes_str l (marker d)
              \<and> length (header_tokens d l) = bestHeaderCount b2
            \<longrightarrow> bestHeaderLine b2 < j
                \<or> (bestHeaderLine b2 = j \<and> rank (bestDelimiter b2) \<le> rank d)))"
    unfolding b2_def by (rule Cons.IH)
  have one: "b1 = b
   \<or> (bestHeaderCount b < bestHeaderCount b1
      \<and> bestHeaderLine b1 = i
      \<and> includes_str x (marker (bestDelimiter b1))
      \<and> length (header_tokens (bestDelimiter b1) x) = bestHeaderCount b1
      \<and> (\<forall>d. includes_str x (marker d) \<and> length (header_tokens d x) = bestHeaderCount b1
            \<longrightarrow> rank (bestDelimiter b1) \<le> rank d))"
    unfolding b1_def by (rule scan_line_winner)
  consider (same) "b2 = b" | (first) "b2 = b1" "b1 \<noteq> b" | (rest) "b2 \<noteq> b1"
    by blast
  then show ?case
  proof cases
    case same
    then show ?thesis unfolding res by simp
  next
    case first
    with one have w: "bestHeaderCount b < bestHeaderCount b2" "bestHeaderLine b2 = i"
      "includes_str x (marker (bestDelimiter b2))"
      "length (header_tokens (bestDelimiter b2) x) = bestHeaderCount b2"
      and r: "\<And>d. includes_str x (marker d) \<Longrightarrow> length (header_tokens d x) = bestHeaderCount b2
            \<Longrightarrow> rank (bestDelimiter b2) \<le> rank d"
      by auto
    have "bestHeaderLine b2 < j \<or> (bestHeaderLine b2 = j \<and> rank (bestDelimiter b2) \<le> rank d)"
      if "(j, l) \<in> set (enumerate i (x # ls))" "includes_str l (marker d)"
        "length (header_tokens d l) = bestHeaderCount b2" for j l d
    proof (cases "(j, l) = (i, x)")
      case True
      with that r w show ?thesis by simp
    next
      case False
      with that have "(j, l) \<in> set (enumerate (Suc i) ls)" by auto
      then have "Suc i \<le> j" by (rule later)
      with w show ?thesis by simp
    qed
    moreover have "(bestHeaderLine b2, x) \<in> set (enumerate i (x # ls))"
      using w by simp
    ultimately show ?thesis
      unfolding res using w by blast
  next
    case rest
    with ih obtain l0 where w: "bestHeaderCount b1 < bestHeaderCount b2"
      "(bestHeaderLine b2, l0) \<in> set (enumerate (Suc i) ls)"
      "includes_str l0 (marker (bestDelimiter b2))"
      "length (header_tokens (bestDelimiter b2) l0) = bestHeaderCount b2"
      and r: "\<And>j l d. (j, l) \<in> set (enumerate (Suc i) ls) \<Longrightarrow> includes_str l (marker d)
              \<Longrightarrow> length (header_tokens d l) = bestHeaderCount b2
            \<Longrightarrow> bestHeaderLine b2 < j
                \<or> (bestHeaderLine b2 = j \<and> rank (bestDelimiter b2) \<le> rank d)"
      by blast
    have "bestHeaderLine b2 < j \<or> (bestHeaderLine b2 = j \<and> rank (bestDelimiter b2) \<le> rank d)"
      if "(j, l) \<in> set (enumerate i (x # ls))" "includes_str l (marker d)"
        "length (header_tokens d l) = bestHeaderCount b2" for j l d
    proof (cases "(j, l) = (i, x)")
      case True
      with that bx [of d] w show ?thesis by simp
    next
      case False
      with that have "(j, l) \<in> set (enumerate (Suc i) ls)" by auto
      with that show ?thesis by (simp add: r)
    qed
    moreover have "(bestHeaderLine b2, l0) \<in> set (enumerate i (x # ls))"
      using w by simp
    moreover have "bestHeaderCount b < bestHeaderCount b2"
      using m1 w by simp
    ultimately show ?thesis
      unfolding res using w by blast
  qed
qed

lemma window_enumerate:
  "(i, l) \<in> set (enumerate 0 (take (min 5 (length lines)) lines))
     \<longleftrightarrow> i < min 5 (length lines) \<and> l = lines ! i"
  by (auto simp: in_set_enumerate_eq)

text \<open>
  C1, as the code has it. Among the first \<open>min 5 (length lines)\<close> lines, a candidate is
  a line together with a delimiter whose literal the line contains. No candidate has more
  header tokens than the count kept as best. When that count is positive, the best is a
  candidate with exactly that count, and every candidate with the same count is on a
  later line, or on the same line with a delimiter tried no earlier in the order space,
  comma, tab: ties go to the earliest line first and, within a line, to the delimiter
  tried first. When the count is zero the initial values are kept. A candidate whose
  count is equal or lower never replaces the current best.
\<close>

theorem first_best_candidate:
  "(\<forall>i d. i < min 5 (length lines) \<and> includes_str (lines ! i) (marker d)
        \<longrightarrow> length (header_tokens d (lines ! i)) \<le> bestHeaderCount (find_header lines))
   \<and> (0 < bestHeaderCount (find_header lines) \<longrightarrow>
        bestHeaderLine (find_header lines) < min 5 (length lines)
        \<and> includes_str (lines ! bestHeaderLine (find_header lines))
             (marker (bestDelimiter (find_header lines)))
        \<and> length (header_tokens (bestDelimiter (find_header lines))
             (lines ! bestHeaderLine (find_header lines))) = bestHeaderCount (find_header lines))
   \<and> (\<forall>i d. 0 < bestHeaderCount (find_header lines)
          \<and> i < min 5 (length lines) \<and> includes_str (lines ! i) (marker d)
          \<and> length (header_tokens d (lines ! i)) = bestHeaderCount (find_header lines)
        \<longrightarrow> bestHeaderLine (find_header lines) < i
            \<or> (bestHeaderLine (find_header lines) = i
               \<and> rank (bestDelimiter (find_header lines)) \<le> rank d))
   \<and> (bestHeaderCount (find_header lines) = 0 \<longrightarrow>
        find_header lines = \<lparr>bestHeaderLine = 0, bestDelimiter = Space, bestHeaderCount = 0\<rparr>)
   \<and> (length (header_tokens d' l') \<le> bestHeaderCount b' \<longrightarrow> try_delimiter d' i' l' b' = b')"
proof -
  define w where "w = take (min 5 (length lines)) lines"
  define b0 where "b0 = \<lparr>bestHeaderLine = 0, bestDelimiter = Space, bestHeaderCount = 0\<rparr>"
  define b where "b = find_header lines"
  have b: "b = scan_lines 0 w b0"
    by (simp add: b_def find_header_def w_def b0_def)
  have en: "(i, l) \<in> set (enumerate 0 w) \<longleftrightarrow> i < min 5 (length lines) \<and> l = lines ! i" for i l
    unfolding w_def by (rule window_enumerate)
  have p1: "length (header_tokens d (lines ! i)) \<le> bestHeaderCount b"
    if "i < min 5 (length lines)" "includes_str (lines ! i) (marker d)" for i d
    unfolding b using that scan_lines_bound [of i "lines ! i" 0 w d b0] by (simp add: en)
  have win: "b = b0
   \<or> (bestHeaderCount b0 < bestHeaderCount b
      \<and> (\<exists>l. (bestHeaderLine b, l) \<in> set (enumerate 0 w)
            \<and> includes_str l (marker (bestDelimiter b))
            \<and> length (header_tokens (bestDelimiter b) l) = bestHeaderCount b)
      \<and> (\<forall>j l d. (j, l) \<in> set (enumerate 0 w) \<and> includes_str l (marker d)
              \<and> length (header_tokens d l) = bestHeaderCount b
            \<longrightarrow> bestHeaderLine b < j
                \<or> (bestHeaderLine b = j \<and> rank (bestDelimiter b) \<le> rank d)))"
    unfolding b by (rule scan_lines_winner)
  have z: "bestHeaderCount b0 = 0"
    by (simp add: b0_def)
  have p2: "bestHeaderLine b < min 5 (length lines)
        \<and> includes_str (lines ! bestHeaderLine b) (marker (bestDelimiter b))
        \<and> length (header_tokens (bestDelimiter b) (lines ! bestHeaderLine b)) = bestHeaderCount b"
    if "0 < bestHeaderCount b"
    using win that z by (auto simp: en)
  have p3: "bestHeaderLine b < i \<or> (bestHeaderLine b = i \<and> rank (bestDelimiter b) \<le> rank d)"
    if "0 < bestHeaderCount b" "i < min 5 (length lines)" "includes_str (lines ! i) (marker d)"
      "length (header_tokens d (lines ! i)) = bestHeaderCount b" for i d
  proof -
    from win that(1) z have "\<forall>j l d. (j, l) \<in> set (enumerate 0 w) \<and> includes_str l (marker d)
              \<and> length (header_tokens d l) = bestHeaderCount b
            \<longrightarrow> bestHeaderLine b < j
                \<or> (bestHeaderLine b = j \<and> rank (bestDelimiter b) \<le> rank d)"
      by auto
    moreover have "(i, lines ! i) \<in> set (enumerate 0 w)"
      using that(2) by (simp add: en)
    ultimately show ?thesis
      using that(3,4) by blast
  qed
  have p4: "b = b0" if "bestHeaderCount b = 0"
    using win that z by auto
  have p5: "try_delimiter d' i' l' b' = b'" if "length (header_tokens d' l') \<le> bestHeaderCount b'"
    using that by (simp add: try_delimiter_def)
  show ?thesis
    using p1 p2 p3 p4 p5 unfolding b_def b0_def by blast
qed

theorem first_best_candidate_witness:
  "3 \<le> bestHeaderCount (find_header [''a,b,c'', ''x  y  z''])
   \<and> bestHeaderLine (find_header [''a,b,c'', ''x  y  z'']) < 2
   \<and> (bestHeaderLine (find_header [''a,b,c'', ''x  y  z'']) < 1
       \<or> bestHeaderLine (find_header [''a,b,c'', ''x  y  z'']) = 1
         \<and> rank (bestDelimiter (find_header [''a,b,c'', ''x  y  z''])) \<le> rank Space)
   \<and> find_header [''abc'', ''def'']
       = \<lparr>bestHeaderLine = 0, bestDelimiter = Space, bestHeaderCount = 0\<rparr>
   \<and> try_delimiter Space 1 ''x  y  z''
        \<lparr>bestHeaderLine = 0, bestDelimiter = Comma, bestHeaderCount = 3\<rparr>
      = \<lparr>bestHeaderLine = 0, bestDelimiter = Comma, bestHeaderCount = 3\<rparr>"
proof -
  let ?L = "[''a,b,c'', ''x  y  z'']"
  let ?M = "[''abc'', ''def'']"
  let ?b = "\<lparr>bestHeaderLine = 0, bestDelimiter = Comma, bestHeaderCount = 3\<rparr>"
  note t = first_best_candidate [of ?L Space "''x  y  z''" ?b 1]
  have i: "(1::nat) < min 5 (length ?L)" by simp
  have e: "includes_str (?L ! 1) (marker Space)" by simp
  have n: "length (header_tokens Space (?L ! 1)) = 3" by code_simp
  have k: "bestHeaderCount (find_header ?L) = 3" by code_simp
  have z: "bestHeaderCount (find_header ?M) = 0" by code_simp
  have n': "length (header_tokens Space ''x  y  z'') \<le> bestHeaderCount ?b"
    using n by simp
  from t i e have "length (header_tokens Space (?L ! 1)) \<le> bestHeaderCount (find_header ?L)"
    by blast
  then have c: "3 \<le> bestHeaderCount (find_header ?L)"
    using n by simp
  then have p: "0 < bestHeaderCount (find_header ?L)" by simp
  with t have "bestHeaderLine (find_header ?L) < min 5 (length ?L)" by blast
  then have l: "bestHeaderLine (find_header ?L) < 2" by simp
  have q: "length (header_tokens Space (?L ! 1)) = bestHeaderCount (find_header ?L)"
    using n k by simp
  from t p i e q have tie: "bestHeaderLine (find_header ?L) < 1
       \<or> bestHeaderLine (find_header ?L) = 1 \<and> rank (bestDelimiter (find_header ?L)) \<le> rank Space"
    by blast
  from first_best_candidate [of ?M Space "[]" ?b 0] z
  have ini: "find_header ?M = \<lparr>bestHeaderLine = 0, bestDelimiter = Space, bestHeaderCount = 0\<rparr>"
    by blast
  from t n' have "try_delimiter Space 1 ''x  y  z'' ?b = ?b" by blast
  with c l tie ini show ?thesis by simp
qed

text \<open>
  C1, as the specification states it, fails: with the lines \<^verbatim>\<open>a,b,c\<close> and
  \<^verbatim>\<open>x  y  z\<close>, both giving three tokens, the comma of the first line is kept although
  the space split of the second line comes first in the order of the delimiters.
\<close>

theorem delimiter_first_counterexample:
  "find_header [''a,b,c'', ''x  y  z'']
     = \<lparr>bestHeaderLine = 0, bestDelimiter = Comma, bestHeaderCount = 3\<rparr>
   \<and> includes_str ''x  y  z'' (marker Space)
   \<and> length (header_tokens Space ''x  y  z'') = 3
   \<and> rank Space < rank Comma"
  by code_simp

section \<open>The tolerance of the delimited-row extractor\<close>







section \<open>The pattern-frequency fallback\<close>

subsection \<open>The generic headers\<close>

lemma digit_char_inj:
  assumes "a < 10" "b < 10" "digit_char a = digit_char b"
  shows "a = b"
proof -
  have "distinct ''0123456789''" by simp
  moreover have "a < length ''0123456789''" "b < length ''0123456789''"
    using assms by simp_all
  ultimately show ?thesis
    using assms(3) unfolding digit_char_def by (simp only: nth_eq_iff_index_eq)
qed

lemma string_of_nat_length:
  "length (string_of_nat n) = 1 \<longleftrightarrow> n < 10"
proof
  assume l: "length (string_of_nat n) = 1"
  show "n < 10"
  proof (rule ccontr)
    assume "\<not> n < 10"
    then have "string_of_nat n = string_of_nat (n div 10) @ [digit_char (n mod 10)]"
      by (subst string_of_nat.simps) simp
    with l have "string_of_nat (n div 10) = []" by simp
    then show False
      by (subst (asm) string_of_nat.simps) (simp split: if_splits)
  qed
next
  assume "n < 10"
  then show "length (string_of_nat n) = 1"
    by (subst string_of_nat.simps) simp
qed

lemma string_of_nat_inj: "string_of_nat n = string_of_nat m \<Longrightarrow> n = m"
proof (induction n arbitrary: m rule: string_of_nat.induct)
  case (1 n)
  show ?case
  proof (cases "n < 10")
    case True
    then have "length (string_of_nat m) = 1"
      using "1.prems" string_of_nat_length [of n] by simp
    then have m: "m < 10" using string_of_nat_length [of m] by simp
    have "string_of_nat n = [digit_char n]" "string_of_nat m = [digit_char m]"
      using True m by (subst string_of_nat.simps, simp)+
    with "1.prems" True m show ?thesis
      by (simp add: digit_char_inj)
  next
    case False
    then have "length (string_of_nat m) \<noteq> 1"
      using "1.prems" string_of_nat_length [of n] by simp
    then have m: "\<not> m < 10" using string_of_nat_length [of m] by simp
    have n': "string_of_nat n = string_of_nat (n div 10) @ [digit_char (n mod 10)]"
      using False by (subst string_of_nat.simps) simp
    have m': "string_of_nat m = string_of_nat (m div 10) @ [digit_char (m mod 10)]"
      using m by (subst string_of_nat.simps) simp
    from "1.prems" n' m' have q: "string_of_nat (n div 10) = string_of_nat (m div 10)"
      and r: "digit_char (n mod 10) = digit_char (m mod 10)"
      by simp_all
    from q have "n div 10 = m div 10"
      using "1.IH" False by simp
    moreover from r have "n mod 10 = m mod 10"
      by (simp add: digit_char_inj)
    ultimately show ?thesis
      by (metis div_mult_mod_eq)
  qed
qed

lemma length_genericHeaders: "length (genericHeaders n) = n"
  by (simp add: genericHeaders_def)

lemma distinct_genericHeaders: "distinct (genericHeaders n)"
  unfolding genericHeaders_def
  by (auto simp: distinct_map inj_on_def dest: string_of_nat_inj)

lemma genericHeaders_no_proto: "''__proto__'' \<notin> set (genericHeaders n)"
  by (auto simp: genericHeaders_def)

lemma genericHeaders_nonempty: "[] \<notin> set (genericHeaders n)"
  by (auto simp: genericHeaders_def)

lemma upsert_fresh: "k \<notin> set (map fst r) \<Longrightarrow> upsert r k v = r @ [(k, v)]"
  by (induction r) auto

lemma assign_cols_zip:
  "distinct (map fst r @ hs) \<Longrightarrow> ''__proto__'' \<notin> set hs \<Longrightarrow>
     assign_cols hs vs r = r @ zip hs vs"
proof (induction hs vs r rule: assign_cols.induct)
  case (1 h hs v vs r)
  from "1.prems" have h: "h \<noteq> ''__proto__''" "h \<notin> set (map fst r)"
    by auto
  then have s: "set_prop r h v = r @ [(h, v)]"
    by (simp add: set_prop_def upsert_fresh)
  have "assign_cols hs vs (set_prop r h v) = set_prop r h v @ zip hs vs"
    using "1.prems" by (intro "1.IH") (auto simp: s)
  then show ?case
    by (simp add: s)
qed simp_all

lemma pattern_rows_map_filter:
  "pattern_rows n ls =
     map (\<lambda>line. zip (genericHeaders n) (split_runs 0 line))
       (filter (\<lambda>line. word_count line = n) ls)"
  by (induction ls)
     (simp_all add: word_count_def assign_cols_zip distinct_genericHeaders genericHeaders_no_proto)

subsection \<open>The map of word counts and its most common entry\<close>

lemma map_of_bump:
  "map_of (bump m k) = (map_of m)(k \<mapsto> (case map_of m k of None \<Rightarrow> 1 | Some c \<Rightarrow> c + 1))"
  by (induction m) (auto simp: fun_eq_iff)

lemma map_fst_bump:
  "map fst (bump m k) = (if k \<in> set (map fst m) then map fst m else map fst m @ [k])"
  by (induction m) (force simp: image_iff)+

lemma distinct_bump: "distinct (map fst m) \<Longrightarrow> distinct (map fst (bump m k))"
  by (simp add: map_fst_bump del: set_map)

lemma fold_bump_distinct:
  "distinct (map fst m) \<Longrightarrow>
     distinct (map fst (fold (\<lambda>line m. bump m (word_count line)) lines m))"
  by (induction lines arbitrary: m) (simp_all add: distinct_bump)

lemma fold_bump_count:
  "(case map_of (fold (\<lambda>line m. bump m (word_count line)) lines m) n of
      None \<Rightarrow> 0 | Some c \<Rightarrow> c)
   = (case map_of m n of None \<Rightarrow> 0 | Some c \<Rightarrow> c) + frequency lines n"
proof (induction lines arbitrary: m)
  case Nil
  show ?case by (simp add: frequency_def)
next
  case (Cons l ls)
  have "(case map_of (bump m (word_count l)) n of None \<Rightarrow> 0 | Some c \<Rightarrow> c)
      = (case map_of m n of None \<Rightarrow> 0 | Some c \<Rightarrow> c) + (if word_count l = n then 1 else 0)"
    by (simp add: map_of_bump split: option.splits)
  then show ?case
    using Cons.IH [of "bump m (word_count l)"] by (simp add: frequency_def)
qed

lemma fold_bump_positive:
  "\<forall>(k, c) \<in> set m. 0 < c \<Longrightarrow>
     \<forall>(k, c) \<in> set (fold (\<lambda>line m. bump m (word_count line)) lines m). 0 < c"
proof (induction lines arbitrary: m)
  case Nil
  then show ?case by simp
next
  case (Cons l ls)
  have "\<forall>(k, c) \<in> set (bump m j). 0 < c" if "\<forall>(k, c) \<in> set m. 0 < c" for m :: count_map and j
    using that by (induction m) (auto split: if_splits)
  then have "\<forall>(k, c) \<in> set (bump m (word_count l)). 0 < c"
    using Cons.prems by blast
  then have "\<forall>(k, c) \<in> set (fold (\<lambda>line m. bump m (word_count line)) ls
      (bump m (word_count l))). 0 < c"
    by (rule Cons.IH)
  then show ?case by simp
qed

lemma wordCountMap_entry:
  "(n, c) \<in> set (wordCountMap lines) \<longleftrightarrow> c = frequency lines n \<and> 0 < c"
proof -
  let ?m = "wordCountMap lines"
  have d: "distinct (map fst ?m)"
    unfolding wordCountMap_def by (rule fold_bump_distinct) simp
  have p: "\<forall>(k, c) \<in> set ?m. 0 < c"
    unfolding wordCountMap_def by (rule fold_bump_positive) simp
  have f: "(case map_of ?m n of None \<Rightarrow> 0 | Some c \<Rightarrow> c) = frequency lines n"
    unfolding wordCountMap_def using fold_bump_count [of lines "[]" n] by simp
  show ?thesis
  proof
    assume a: "(n, c) \<in> set ?m"
    with d have "map_of ?m n = Some c" by simp
    with f a p show "c = frequency lines n \<and> 0 < c" by auto
  next
    assume a: "c = frequency lines n \<and> 0 < c"
    with f have "map_of ?m n = Some c"
      by (cases "map_of ?m n") auto
    then show "(n, c) \<in> set ?m"
      by (rule map_of_SomeD)
  qed
qed

lemma fold_pick_mono: "snd s \<le> snd (fold pick m s)"
proof (induction m arbitrary: s)
  case Nil
  show ?case by simp
next
  case (Cons e m)
  have "snd s \<le> snd (pick e s)"
    by (cases e; cases s) simp
  also have "\<dots> \<le> snd (fold pick m (pick e s))"
    by (rule Cons.IH)
  finally show ?case by simp
qed

lemma fold_pick_bound:
  "(n, c) \<in> set m \<Longrightarrow> 1 < n \<Longrightarrow> c \<le> snd (fold pick m s)"
proof (induction m arbitrary: s)
  case Nil
  then show ?case by simp
next
  case (Cons e m)
  show ?case
  proof (cases "(n, c) = e")
    case True
    then have "c \<le> snd (pick e s)"
      using Cons.prems(2) by (cases s) auto
    also have "\<dots> \<le> snd (fold pick m (pick e s))"
      by (rule fold_pick_mono)
    finally show ?thesis by simp
  next
    case False
    with Cons.prems have "(n, c) \<in> set m" by auto
    then show ?thesis
      using Cons.IH [of "pick e s"] Cons.prems(2) by simp
  qed
qed

lemma fold_pick_winner:
  "fold pick m s = s
   \<or> (fold pick m s \<in> set m \<and> 1 < fst (fold pick m s) \<and> snd s < snd (fold pick m s))"
proof (induction m arbitrary: s)
  case Nil
  show ?case by simp
next
  case (Cons e m)
  have one: "pick e s = s \<or> (pick e s = e \<and> 1 < fst e \<and> snd s < snd e)"
    by (cases e; cases s) simp
  from Cons.IH [of "pick e s"] show ?case
  proof
    assume "fold pick m (pick e s) = pick e s"
    with one show ?thesis by auto
  next
    assume a: "fold pick m (pick e s) \<in> set m \<and> 1 < fst (fold pick m (pick e s))
      \<and> snd (pick e s) < snd (fold pick m (pick e s))"
    have "snd s \<le> snd (pick e s)"
      by (cases e; cases s) simp
    with a show ?thesis by auto
  qed
qed

lemma most_common_facts:
  "(2 \<le> n \<longrightarrow> frequency lines n \<le> snd (most_common (wordCountMap lines)))
   \<and> (0 < snd (most_common (wordCountMap lines)) \<longrightarrow>
        2 \<le> fst (most_common (wordCountMap lines))
        \<and> snd (most_common (wordCountMap lines))
            = frequency lines (fst (most_common (wordCountMap lines))))
   \<and> (snd (most_common (wordCountMap lines)) = 0 \<longrightarrow> fst (most_common (wordCountMap lines)) = 0)"
proof -
  let ?r = "most_common (wordCountMap lines)"
  have r: "?r = fold pick (wordCountMap lines) (0, 0)"
    by (simp add: most_common_def)
  have a: "frequency lines n \<le> snd ?r" if "2 \<le> n"
  proof (cases "frequency lines n = 0")
    case True
    then show ?thesis by simp
  next
    case False
    then have "(n, frequency lines n) \<in> set (wordCountMap lines)"
      by (simp add: wordCountMap_entry)
    then show ?thesis
      unfolding r using that by (intro fold_pick_bound) auto
  qed
  have w: "?r = (0, 0) \<or> (?r \<in> set (wordCountMap lines) \<and> 1 < fst ?r \<and> 0 < snd ?r)"
    unfolding r using fold_pick_winner [of "wordCountMap lines" "(0, 0)"] by simp
  have b: "2 \<le> fst ?r \<and> snd ?r = frequency lines (fst ?r)" if "0 < snd ?r"
  proof -
    from w that have "(fst ?r, snd ?r) \<in> set (wordCountMap lines)" and g: "1 < fst ?r"
      by auto
    then have "snd ?r = frequency lines (fst ?r)"
      by (simp only: wordCountMap_entry)
    with g show ?thesis
      by simp
  qed
  have c: "fst ?r = 0" if "snd ?r = 0"
    using w that by auto
  from a b c show ?thesis by blast
qed

lemma pattern_table_eq:
  "pattern_table lines =
     (if 3 \<le> highestFrequency lines
      then map (\<lambda>line. zip (genericHeaders (mostCommonWordCount lines)) (split_runs 0 line))
             (filter (\<lambda>line. word_count line = mostCommonWordCount lines) lines)
      else [])"
proof -
  have "2 \<le> mostCommonWordCount lines" if "3 \<le> highestFrequency lines"
    using that most_common_facts [of 0 lines]
    by (simp add: mostCommonWordCount_def highestFrequency_def)
  then show ?thesis
    by (auto simp: pattern_table_def mostCommonWordCount_def highestFrequency_def
        pattern_rows_map_filter split: prod.splits)
qed

text \<open>
  C6. After the traversal of the map, no number of words from two on occurs on more lines
  than \<open>highestFrequency\<close>, and when \<open>highestFrequency\<close> is positive it is the number of
  lines with \<open>mostCommonWordCount\<close> words, which is at least two. The fallback returns
  rows only if \<open>highestFrequency\<close> is at least three: then one row for each line with
  exactly \<open>mostCommonWordCount\<close> words, in order, pairing the headers \<^verbatim>\<open>Column1\<close> to
  \<^verbatim>\<open>ColumnN\<close> with the words of the line; otherwise it returns no row.
\<close>

theorem pattern_fallback:
  "(2 \<le> n \<longrightarrow> frequency lines n \<le> highestFrequency lines)
   \<and> (0 < highestFrequency lines \<longrightarrow>
        2 \<le> mostCommonWordCount lines
        \<and> highestFrequency lines = frequency lines (mostCommonWordCount lines))
   \<and> pattern_table lines =
       (if 3 \<le> highestFrequency lines
        then map (\<lambda>line. zip (genericHeaders (mostCommonWordCount lines)) (split_runs 0 line))
               (filter (\<lambda>line. word_count line = mostCommonWordCount lines) lines)
        else [])
   \<and> length (genericHeaders k) = k
   \<and> (i < k \<longrightarrow> genericHeaders k ! i = ''Column'' @ string_of_nat (i + 1))"
  using most_common_facts [of n lines] pattern_table_eq [of lines]
  by (simp add: mostCommonWordCount_def highestFrequency_def genericHeaders_def)

theorem pattern_fallback_witness:
  "pattern_table [''a b c'', ''one'', ''d e f'', ''g h i'', ''two'', ''j k l'', ''m n o'']
     = [[(''Column1'', ''a''), (''Column2'', ''b''), (''Column3'', ''c'')],
        [(''Column1'', ''d''), (''Column2'', ''e''), (''Column3'', ''f'')],
        [(''Column1'', ''g''), (''Column2'', ''h''), (''Column3'', ''i'')],
        [(''Column1'', ''j''), (''Column2'', ''k''), (''Column3'', ''l'')],
        [(''Column1'', ''m''), (''Column2'', ''n''), (''Column3'', ''o'')]]
   \<and> frequency [''a b c'', ''one'', ''d e f'', ''g h i'', ''two'', ''j k l'', ''m n o''] 3 \<le> 5
   \<and> 5 = frequency [''a b c'', ''one'', ''d e f'', ''g h i'', ''two'', ''j k l'', ''m n o''] 3
   \<and> genericHeaders 3 ! 2 = ''Column3''
   \<and> pattern_table [''a b c d'', ''e f g h'', ''i''] = []"
proof -
  let ?L = "[''a b c'', ''one'', ''d e f'', ''g h i'', ''two'', ''j k l'', ''m n o'']"
  let ?M = "[''a b c d'', ''e f g h'', ''i'']"
  have h: "highestFrequency ?L = 5" by code_simp
  have m: "mostCommonWordCount ?L = 3" by code_simp
  have g: "genericHeaders 3 = [''Column1'', ''Column2'', ''Column3'']" by code_simp
  have s: "string_of_nat (2 + 1) = ''3''" by code_simp
  have h': "highestFrequency ?M = 2" by code_simp
  note t = pattern_fallback [of 3 ?L 3 2]
  from t h have "frequency ?L 3 \<le> 5"
    by simp
  moreover
  from t h m have "5 = frequency ?L 3"
    by simp
  moreover
  from t have "genericHeaders 3 ! 2 = ''Column'' @ string_of_nat (2 + 1)"
    by simp
  then have "genericHeaders 3 ! 2 = ''Column3''"
    by (simp only: s) simp
  moreover
  from t h m
  have "pattern_table ?L = map (\<lambda>line. zip (genericHeaders 3) (split_runs 0 line))
               (filter (\<lambda>line. word_count line = 3) ?L)"
    by simp
  then have "pattern_table ?L
     = [[(''Column1'', ''a''), (''Column2'', ''b''), (''Column3'', ''c'')],
        [(''Column1'', ''d''), (''Column2'', ''e''), (''Column3'', ''f'')],
        [(''Column1'', ''g''), (''Column2'', ''h''), (''Column3'', ''i'')],
        [(''Column1'', ''j''), (''Column2'', ''k''), (''Column3'', ''l'')],
        [(''Column1'', ''m''), (''Column2'', ''n''), (''Column3'', ''o'')]]"
    by (simp add: g word_count_def is_ws_def)
  moreover
  from pattern_fallback [of 3 ?M 0 0] h' have "pattern_table ?M = []"
    by simp
  ultimately show ?thesis by simp
qed

text \<open>
  C10. When the fallback returns rows at all, it returns at least three, as many as
  \<open>highestFrequency\<close>, the number of lines with the winning number of words.
\<close>

theorem fallback_at_least_three_rows:
  "pattern_table lines \<noteq> [] \<longrightarrow>
     3 \<le> length (pattern_table lines)
     \<and> length (pattern_table lines) = highestFrequency lines
     \<and> length (pattern_table lines) = frequency lines (mostCommonWordCount lines)"
proof
  assume a: "pattern_table lines \<noteq> []"
  then have h: "3 \<le> highestFrequency lines"
    using pattern_table_eq [of lines] by (auto split: if_splits)
  then have "length (pattern_table lines) = frequency lines (mostCommonWordCount lines)"
    by (simp add: pattern_table_eq frequency_def)
  moreover have "highestFrequency lines = frequency lines (mostCommonWordCount lines)"
    using h most_common_facts [of 0 lines]
    by (simp add: mostCommonWordCount_def highestFrequency_def)
  ultimately show "3 \<le> length (pattern_table lines)
     \<and> length (pattern_table lines) = highestFrequency lines
     \<and> length (pattern_table lines) = frequency lines (mostCommonWordCount lines)"
    using h by simp
qed

theorem fallback_at_least_three_rows_witness:
  "pattern_table [''a b'', ''x'', ''c d'', ''e f''] \<noteq> []
   \<and> 3 \<le> length (pattern_table [''a b'', ''x'', ''c d'', ''e f''])
   \<and> length (pattern_table [''a b'', ''x'', ''c d'', ''e f''])
       = highestFrequency [''a b'', ''x'', ''c d'', ''e f'']"
proof -
  have "pattern_table [''a b'', ''x'', ''c d'', ''e f''] \<noteq> []"
    by code_simp
  then show ?thesis
    using fallback_at_least_three_rows [of "[''a b'', ''x'', ''c d'', ''e f'']"] by blast
qed

section \<open>The keys of the rows of one result\<close>

lemma map_fst_set_prop: "map fst (set_prop r k v) = add_key (map fst r) k"
  by (simp add: set_prop_def add_key_def map_fst_upsert del: set_map)

lemma map_fst_assign_cols:
  "map fst (assign_cols hs vs r) = foldl add_key (map fst r) (take (length vs) hs)"
  by (induction hs vs r rule: assign_cols.induct) (simp_all add: map_fst_set_prop)

lemma keys_of_full_row:
  "length hs \<le> length vs \<Longrightarrow> map fst (assign_cols hs vs []) = keys_after hs"
  by (simp add: map_fst_assign_cols keys_after_def)

lemma keys_after_distinct:
  "distinct hs \<Longrightarrow> ''__proto__'' \<notin> set hs \<Longrightarrow> keys_after hs = hs"
proof -
  assume "distinct hs" "''__proto__'' \<notin> set hs"
  then have "assign_cols hs hs [] = zip hs hs"
    using assign_cols_zip [of "[]" hs hs] by simp
  then have "map fst (assign_cols hs hs []) = hs"
    by (simp add: zip_same_conv_map comp_def)
  then show ?thesis
    using keys_of_full_row [of hs hs] by simp
qed

lemma text_rows_keys:
  "r \<in> set (text_rows d headers ls) \<Longrightarrow> map fst r = keys_after headers"
  by (auto simp: text_rows_map_filter keys_of_full_row)

lemma pattern_table_keys:
  assumes "r \<in> set (pattern_table lines)"
  shows "map fst r = genericHeaders (mostCommonWordCount lines)"
proof -
  from assms obtain line where "word_count line = mostCommonWordCount lines"
    and "r = zip (genericHeaders (mostCommonWordCount lines)) (split_runs 0 line)"
    by (auto simp: pattern_table_eq split: if_splits)
  then show ?thesis
    by (simp add: word_count_def length_genericHeaders)
qed

lemma delimited_rows_keys:
  assumes "r \<in> set (delimited_rows d headers ls)"
  shows "map fst r = keys_after headers \<or> map fst r = keys_after (butlast headers)"
proof -
  from assms obtain l where l: "row_of_line d headers l = Some r"
    by (auto simp: delimited_rows_map_filter List.map_filter_def)
  define vs where "vs = data_values d l"
  from l have r: "r = assign_cols headers vs []"
    and a: "accepts (length headers) (length vs)"
    by (simp_all add: row_of_line_def vs_def Let_def split: if_splits)
  show ?thesis
  proof (cases "length headers \<le> length vs")
    case True
    then show ?thesis
      by (simp add: r keys_of_full_row)
  next
    case False
    with a have "length vs = length headers - 1"
      unfolding accepts_def by arith
    then have "take (length vs) headers = butlast headers"
      by (simp add: butlast_conv_take)
    then show ?thesis
      by (simp add: r map_fst_assign_cols keys_after_def)
  qed
qed

text \<open>
  C3, as the code has it. Every row of the strict extractor has the keys that the
  assignment of all headers creates, and every row of the fallback has the keys
  \<^verbatim>\<open>Column1\<close> to \<^verbatim>\<open>ColumnN\<close>: in these two results all rows have the same keys in the
  same order. A row of the delimited-row extractor has the keys created by all headers,
  or those created by all headers but the last, when its line has one cell less than
  there are headers. The PDF branch returns the rows of one of the two extractors, or
  none.
\<close>

theorem row_keys:
  "(r \<in> set (text_table lines) \<longrightarrow> map fst r = keys_after (text_headers lines))
   \<and> (r \<in> set (pattern_table lines) \<longrightarrow> map fst r = genericHeaders (mostCommonWordCount lines))
   \<and> (r \<in> set (header_rows lines b) \<longrightarrow>
        map fst r = keys_after (header_of lines b)
        \<or> map fst r = keys_after (butlast (header_of lines b)))
   \<and> (pdf_table lines = header_rows lines (find_header lines)
      \<or> pdf_table lines = pattern_table lines \<or> pdf_table lines = [])"
proof -
  have "map fst r = keys_after (text_headers lines)" if "r \<in> set (text_table lines)"
    using that by (auto simp: text_table_def split: if_splits dest: text_rows_keys)
  moreover have "pdf_table lines = header_rows lines (find_header lines)
      \<or> pdf_table lines = pattern_table lines \<or> pdf_table lines = []"
    by (simp add: pdf_table_def Let_def)
  ultimately show ?thesis
    using pattern_table_keys [of r lines] delimited_rows_keys [of r]
    unfolding header_rows_def by blast
qed

theorem row_keys_witness:
  "map fst [(''a'', ''1''), (''b'', ''2'')] = keys_after (text_headers [''a;b'', ''1;2'', ''3''])
   \<and> map fst [(''Column1'', ''a''), (''Column2'', ''b'')]
       = genericHeaders (mostCommonWordCount [''a b'', ''x'', ''c d'', ''e f''])
   \<and> (map fst [(''Name'', ''Alice''), (''Age'', ''30'')]
         = keys_after (header_of [''Name  Age  City'', ''Alice  30'']
              (find_header [''Name  Age  City'', ''Alice  30'']))
       \<or> map fst [(''Name'', ''Alice''), (''Age'', ''30'')]
         = keys_after (butlast (header_of [''Name  Age  City'', ''Alice  30'']
              (find_header [''Name  Age  City'', ''Alice  30'']))))"
proof -
  have "[(''a'', ''1''), (''b'', ''2'')] \<in> set (text_table [''a;b'', ''1;2'', ''3''])"
    by code_simp
  moreover
  have "[(''Column1'', ''a''), (''Column2'', ''b'')]
      \<in> set (pattern_table [''a b'', ''x'', ''c d'', ''e f''])"
    by code_simp
  moreover
  have "[(''Name'', ''Alice''), (''Age'', ''30'')]
      \<in> set (header_rows [''Name  Age  City'', ''Alice  30'']
           (find_header [''Name  Age  City'', ''Alice  30'']))"
    by code_simp
  ultimately show ?thesis
    using row_keys [of "[(''a'', ''1''), (''b'', ''2'')]" "[''a;b'', ''1;2'', ''3'']"]
      row_keys [of "[(''Column1'', ''a''), (''Column2'', ''b'')]" "[''a b'', ''x'', ''c d'', ''e f'']"]
      row_keys [of "[(''Name'', ''Alice''), (''Age'', ''30'')]" "[''Name  Age  City'', ''Alice  30'']"
        "find_header [''Name  Age  City'', ''Alice  30'']"]
    by blast
qed

text \<open>
  C3, as the specification states it, fails on extracted PDF text: under the header
  \<^verbatim>\<open>Name  Age  City\<close> the line \<^verbatim>\<open>Alice  30\<close> is accepted with two cells, and its row
  has no key \<^verbatim>\<open>City\<close>, unlike the row of the next line.
\<close>

theorem rows_differ_in_keys_counterexample:
  "pdf_table (non_blank_lines (''Name  Age  City'' @ [CHR 0x0A] @ ''Alice  30'' @ [CHR 0x0A]
       @ ''Bob  25  London''))
     = [[(''Name'', ''Alice''), (''Age'', ''30'')],
        [(''Name'', ''Bob''), (''Age'', ''25''), (''City'', ''London'')]]
   \<and> map fst [(''Name'', ''Alice''), (''Age'', ''30'')]
      \<noteq> map fst [(''Name'', ''Bob''), (''Age'', ''25''), (''City'', ''London'')]"
  by code_simp

section \<open>Empty headers\<close>

lemma header_tokens_nonempty: "[] \<notin> set (header_tokens d line)"
  by (simp add: header_tokens_def)

text \<open>
  C9, as the code has it. The header tokens found in PDF text, for any delimiter and any
  line, and the generic headers of the fallback are never empty strings. In the strict
  extractor the same holds when the delimiter is white space; when it is a tab, a comma
  or a semicolon the header tokens are trimmed and all kept, one more than the first line
  has separators, empty ones included.
\<close>

theorem headers_nonempty:
  "[] \<notin> set (header_tokens d line)
   \<and> [] \<notin> set (header_of lines b)
   \<and> [] \<notin> set (genericHeaders n)
   \<and> (detect_delimiter (hd lines) = Whitespace \<longrightarrow> [] \<notin> set (text_headers lines))
   \<and> (detect_delimiter (hd lines) = Literal c \<longrightarrow>
        text_headers lines = map trim (split_char c (hd lines))
        \<and> length (text_headers lines) = Suc (count_list (hd lines) c))"
  by (auto simp: header_tokens_nonempty header_of_def genericHeaders_nonempty text_headers_def
      length_split_char)

theorem headers_nonempty_witness:
  "[] \<notin> set (text_headers [''a  b'', ''1 2''])
   \<and> length (text_headers [''a,,b'', ''1,2,3'']) = 3"
proof -
  have w: "detect_delimiter (hd [''a  b'', ''1 2'']) = Whitespace" by code_simp
  have l: "detect_delimiter (hd [''a,,b'', ''1,2,3'']) = Literal (CHR '','')" by code_simp
  from w headers_nonempty [of Space "[]" "[''a  b'', ''1 2'']"]
  have "[] \<notin> set (text_headers [''a  b'', ''1 2''])"
    by blast
  moreover from l headers_nonempty [of Space "[]" "[''a,,b'', ''1,2,3'']" _ _ "CHR '',''"]
  have "length (text_headers [''a,,b'', ''1,2,3'']) = Suc (count_list (hd [''a,,b'', ''1,2,3'']) (CHR '',''))"
    by blast
  ultimately show ?thesis by simp
qed

text \<open>
  C9, as the specification states it, fails for a plain text file: the first line
  \<^verbatim>\<open>a,,b\<close> gives three headers, the second of them empty, and the empty string is a
  key of the row.
\<close>

theorem empty_header_counterexample:
  "text_headers (non_blank_lines (''a,,b'' @ [CHR 0x0A] @ ''1,2,3'')) = [''a'', [], ''b'']
   \<and> text_table (non_blank_lines (''a,,b'' @ [CHR 0x0A] @ ''1,2,3''))
       = [[(''a'', ''1''), ([], ''2''), (''b'', ''3'')]]"
  by code_simp

section \<open>The scenarios of the specification\<close>

lemma scenario_two_space_columns:
  "extractTableData ''application/pdf'' (Inr [])
     (Inr (''Name  Age  City'' @ [CHR 0x0A] @ ''Alice  30  Paris'' @ [CHR 0x0A]
        @ ''Bob  25  London'') :: string + string)
   = [[(''Name'', ''Alice''), (''Age'', ''30''), (''City'', ''Paris'')],
      [(''Name'', ''Bob''), (''Age'', ''25''), (''City'', ''London'')]]"
  by code_simp

lemma scenario_single_line:
  "extractTableData ''application/pdf'' (Inr []) (Inr ''Name  Age  City'' :: string + string) = []
   \<and> extractTableData ''text/plain'' (Inr []) (Inr ''a,b,c'' :: string + string) = []"
  by code_simp

end
